theory Spec2Isabelle
  imports Main "HOL-Library.AList"
begin

section \<open>Text: characters, trimming, substring search\<close>

text \<open>
  A line of telemetry is a Python \<open>str\<close>. It is modelled as a \<open>string\<close>, a list of
  characters with code points below 256. On such text the three string operations of
  \<open>crash_test_suite.py\<close> are: \<open>indicator in line\<close> (substring test), \<open>line.strip()\<close>
  (trimming of white space) and \<open>re.search(pattern, line, re.IGNORECASE)\<close>.
\<close>

definition nl :: char where
  "nl = CHR 0x0A"

definition is_space :: "char \<Rightarrow> bool" where
  \<comment> \<open>the characters below 256 for which Python's \<open>str.isspace\<close> holds\<close>
  "is_space c = (of_char c \<in> set [9, 10, 11, 12, 13, 28, 29, 30, 31, 32, 133, 160 :: nat])"

definition strip :: "string \<Rightarrow> string" where
  "strip s = rev (dropWhile is_space (rev (dropWhile is_space s)))"

definition is_digit :: "char \<Rightarrow> bool" where
  \<comment> \<open>\<open>\d\<close> on code points below 256\<close>
  "is_digit c = (c \<in> set ''0123456789'')"

definition lower :: "char \<Rightarrow> char" where
  \<comment> \<open>case folding of the letters A to Z, as \<open>re.IGNORECASE\<close> compares a literal letter\<close>
  "lower c = (let n = of_char c :: nat in if 65 \<le> n \<and> n \<le> 90 then char_of (n + 32) else c)"

fun starts_with :: "string \<Rightarrow> string \<Rightarrow> bool" where
  \<comment> \<open>\<open>starts_with p s\<close>: \<open>s.startswith(p)\<close>\<close>
  "starts_with [] s = True"
| "starts_with (p # ps) [] = False"
| "starts_with (p # ps) (c # cs) = (p = c \<and> starts_with ps cs)"

fun is_in :: "string \<Rightarrow> string \<Rightarrow> bool" where
  \<comment> \<open>\<open>is_in p s\<close>: the Python expression \<open>p in s\<close>\<close>
  "is_in p [] = (p = [])"
| "is_in p (c # cs) = (starts_with p (c # cs) \<or> is_in p cs)"

fun ci_starts_with :: "string \<Rightarrow> string \<Rightarrow> bool" where
  \<comment> \<open>the literal \<open>p\<close> matches at the start of \<open>s\<close>, letters compared without case\<close>
  "ci_starts_with [] s = True"
| "ci_starts_with (p # ps) [] = False"
| "ci_starts_with (p # ps) (c # cs) = (lower p = lower c \<and> ci_starts_with ps cs)"

section \<open>The patterns of the crash-log classifier\<close>

text \<open>
  The four regular expressions of \<open>parse_crash_logs\<close> are built from three kinds of
  pieces only: literal text, the group \<open>(\d+)\<close> and the group \<open>(.+)\<close>, joined by
  sequencing and, at top level, by \<open>|\<close>. A pattern is a list of alternatives, each a list
  of pieces. \<open>match_here\<close> matches one alternative at the start of the text and returns the
  captured groups. Both groups are greedy; taking the longest run is what the
  backtracking matcher of \<open>re\<close> returns for these patterns, because \<open>(\d+)\<close> is followed
  by a literal that starts with a blank (no shorter run of digits is followed by a
  blank) and \<open>(.+)\<close> ends its pattern. \<open>.\<close> matches every character but the newline.
\<close>

datatype piece = Lit string | Digits | Rest

fun match_here :: "piece list \<Rightarrow> string \<Rightarrow> string list option" where
  "match_here [] s = Some []"
| "match_here (Lit p # ps) s =
     (if ci_starts_with p s then match_here ps (drop (length p) s) else None)"
| "match_here (Digits # ps) s =
     (let g = takeWhile is_digit s in
      if g = [] then None
      else map_option ((#) g) (match_here ps (dropWhile is_digit s)))"
| "match_here (Rest # ps) s =
     (let g = takeWhile (\<lambda>c. c \<noteq> nl) s in
      if g = [] then None
      else map_option ((#) g) (match_here ps (dropWhile (\<lambda>c. c \<noteq> nl) s)))"

fun first_alt :: "piece list list \<Rightarrow> string \<Rightarrow> string list option" where
  \<comment> \<open>the alternatives of \<open>a|b\<close> are tried in order at one position\<close>
  "first_alt [] s = None"
| "first_alt (a # as) s =
     (case match_here a s of Some g \<Rightarrow> Some g | None \<Rightarrow> first_alt as s)"

fun re_search :: "piece list list \<Rightarrow> string \<Rightarrow> string list option" where
  \<comment> \<open>\<open>re.search\<close>: the match at the leftmost position that has one;
      the result is \<open>match.groups()\<close>\<close>
  "re_search p [] = first_alt p []"
| "re_search p (c # cs) =
     (case first_alt p (c # cs) of Some g \<Rightarrow> Some g | None \<Rightarrow> re_search p cs)"

definition patterns :: "(string \<times> piece list list) list" where
  "patterns =
     [(''init'', [[Lit ''Crash log manager initialized - '', Digits, Lit '' logs stored'']]),
      (''stored'', [[Lit ''logs stored''], [Lit ''Storing crash log'']]),
      (''test_logged'', [[Lit ''Test crash logged: '', Rest]]),
      (''recovery'', [[Lit ''System recovered from crash: '', Rest]])]"

section \<open>Telemetry classifiers\<close>

definition ready_indicators :: "string list" where
  "ready_indicators =
     [''System Monitor - Fully Initialized'',
      ''Crash handler initialized'',
      ''Crash log manager initialized'']"

definition found_indicators :: "string list \<Rightarrow> string list" where
  \<comment> \<open>the list \<open>found_indicators\<close> of \<open>wait_for_system_ready\<close> after its two loops:
      one entry for each line and each indicator contained in that line\<close>
  "found_indicators lines =
     concat (map (\<lambda>line. filter (\<lambda>indicator. is_in indicator line) ready_indicators) lines)"

definition system_ready :: "string list \<Rightarrow> bool" where
  \<comment> \<open>the verdict of \<open>wait_for_system_ready\<close> on the lines it has read\<close>
  "system_ready lines = (2 \<le> length (found_indicators lines))"

definition reboot_indicators :: "string list" where
  "reboot_indicators =
     [''ESP-ROM:esp32s3'',
      ''rst:0x'',
      ''ESP-IDF v5.5 2nd stage bootloader'',
      ''Loaded app from partition'']"

definition detect_reboot :: "string list \<Rightarrow> bool" where
  "detect_reboot lines =
     list_ex (\<lambda>line. list_ex (\<lambda>indicator. is_in indicator line) reboot_indicators) lines"

record crash_log =
  type :: string
  line :: string
  data :: "string list option"
  timestamp :: nat

definition line_matches :: "string \<Rightarrow> (string \<times> string \<times> string list option) list" where
  \<comment> \<open>the inner loop of \<open>parse_crash_logs\<close> on one line: for each pattern that matches,
      its name, the line, and \<open>match.groups() if match.groups() else None\<close>\<close>
  "line_matches l =
     concat (map (\<lambda>(pattern_name, pattern).
        case re_search pattern l of
          None \<Rightarrow> []
        | Some groups \<Rightarrow> [(pattern_name, l, if groups = [] then None else Some groups)])
      patterns)"

definition parse_crash_logs :: "(nat \<Rightarrow> nat) \<Rightarrow> string list \<Rightarrow> crash_log list" where
  \<comment> \<open>\<open>clock k\<close> is what \<open>datetime.now()\<close> returns when the entry number \<open>k\<close> is appended\<close>
  "parse_crash_logs clock lines =
     map (\<lambda>(k, (pattern_name, l, groups)).
            \<lparr>type = pattern_name, line = l, data = groups, timestamp = clock k\<rparr>)
         (enumerate 0 (concat (map line_matches lines)))"

definition captured_groups :: "crash_log \<Rightarrow> string list" where
  \<comment> \<open>the \<open>data\<close> entry read as a sequence: \<open>None\<close> stands for no captured group\<close>
  "captured_groups e = (case data e of None \<Rightarrow> [] | Some groups \<Rightarrow> groups)"

section \<open>The device: transport and clock\<close>

text \<open>
  The serial connection and the wall clock are the environment of the harness. The
  clock counts milliseconds, the length of the pause \<open>time.sleep(0.001)\<close> that ends
  every round of the polling loop; a time limit is given in the same unit. The transport
  is a script with one entry for each round of polling: what the round finds, and how
  much longer than its one-millisecond pause the round takes. A script that has run out
  stands for a silent device.

  \<^item> \<open>Idle\<close>: \<open>in_waiting\<close> is 0.
  \<^item> \<open>Avail s\<close>: \<open>in_waiting\<close> is positive and \<open>read\<close> returns bytes that decode to \<open>s\<close>.
  \<^item> \<open>ReadFail\<close>: \<open>in_waiting\<close> is positive and \<open>read\<close> raises; the loop catches it.
  \<^item> \<open>WaitingFail e\<close>: reading \<open>in_waiting\<close> itself raises an exception with message \<open>e\<close>;
    this is outside the \<open>try\<close> of the loop, so it leaves \<open>read_serial_with_timeout\<close>.
\<close>

datatype poll = Idle | Avail string | ReadFail | WaitingFail string

record device =
  now :: nat
  script :: "(poll \<times> nat) list"
  write_fails :: "bool list"
  sent :: "string list"
  port_ok :: bool
  is_open :: bool

definition next_poll :: "device \<Rightarrow> poll \<times> nat" where
  "next_poll d = (case script d of [] \<Rightarrow> (Idle, 0) | p # _ \<Rightarrow> p)"

definition advance :: "device \<Rightarrow> device" where
  \<comment> \<open>the end of one round: the pause of one millisecond and whatever else the round took\<close>
  "advance d = d\<lparr>now := now d + 1 + snd (next_poll d), script := tl (script d)\<rparr>"

definition sleep :: "nat \<Rightarrow> device \<Rightarrow> device" where
  "sleep ms d = d\<lparr>now := now d + ms\<rparr>"

definition connect :: "device \<Rightarrow> bool \<times> device" where
  "connect d = (if port_ok d then (True, d\<lparr>is_open := True\<rparr>) else (False, d))"

definition disconnect :: "device \<Rightarrow> device" where
  "disconnect d = (if is_open d then d\<lparr>is_open := False\<rparr> else d)"

definition send_command :: "string \<Rightarrow> device \<Rightarrow> bool \<times> device" where
  \<comment> \<open>\<open>write_fails\<close> tells for each write in turn whether it raises; the exception is
      caught and \<open>False\<close> returned\<close>
  "send_command cmd d =
     (case write_fails d of
        True # rest \<Rightarrow> (False, d\<lparr>write_fails := rest\<rparr>)
      | False # rest \<Rightarrow> (True, d\<lparr>write_fails := rest, sent := sent d @ [cmd @ [nl]]\<rparr>)
      | [] \<Rightarrow> (True, d\<lparr>sent := sent d @ [cmd @ [nl]]\<rparr>))"

section \<open>The line reader\<close>

function drain :: "string list \<Rightarrow> string \<Rightarrow> string list \<times> string" where
  \<comment> \<open>the loop \<open>while '\n' in buffer\<close>: returns the lines and the buffer it leaves\<close>
  "drain lines buffer =
     (if nl \<in> set buffer
      then drain
             (if strip (takeWhile (\<lambda>c. c \<noteq> nl) buffer) \<noteq> []
              then lines @ [strip (takeWhile (\<lambda>c. c \<noteq> nl) buffer)]
              else lines)
             (tl (dropWhile (\<lambda>c. c \<noteq> nl) buffer))
      else (lines, buffer))"
  by pat_completeness auto
termination
proof (relation "measure (\<lambda>(lines, buffer). length buffer)")
  show "wf (measure (\<lambda>(lines, buffer). length buffer))" by simp
next
  fix lines :: "string list" and buffer :: string
  assume "nl \<in> set buffer"
  then have "dropWhile (\<lambda>c. c \<noteq> nl) buffer \<noteq> []" by simp
  then have "length (tl (dropWhile (\<lambda>c. c \<noteq> nl) buffer)) < length (dropWhile (\<lambda>c. c \<noteq> nl) buffer)"
    by (cases "dropWhile (\<lambda>c. c \<noteq> nl) buffer") simp_all
  also have "\<dots> \<le> length buffer" by (rule length_dropWhile_le)
  finally show "((if strip (takeWhile (\<lambda>c. c \<noteq> nl) buffer) \<noteq> []
                  then lines @ [strip (takeWhile (\<lambda>c. c \<noteq> nl) buffer)] else lines,
                 tl (dropWhile (\<lambda>c. c \<noteq> nl) buffer)), lines, buffer)
              \<in> measure (\<lambda>(lines, buffer). length buffer)"
    by simp
qed

function read_loop ::
  "int \<Rightarrow> nat \<Rightarrow> string list \<Rightarrow> string \<Rightarrow> device \<Rightarrow> (string + string list) \<times> device" where
  \<comment> \<open>the loop \<open>while (time.time() - start_time) < timeout\<close>; \<open>Inl e\<close> is an exception
      that leaves the function, \<open>Inr lines\<close> its return value\<close>
  "read_loop timeout_ms start lines buffer d =
     (if int (now d) - int start < timeout_ms then
        (case fst (next_poll d) of
           WaitingFail e \<Rightarrow> (Inl e, d\<lparr>script := tl (script d)\<rparr>)
         | Idle \<Rightarrow> read_loop timeout_ms start lines buffer (advance d)
         | ReadFail \<Rightarrow> read_loop timeout_ms start lines buffer (advance d)
         | Avail received \<Rightarrow>
             read_loop timeout_ms start
               (fst (drain lines (buffer @ received)))
               (snd (drain lines (buffer @ received)))
               (advance d))
      else (Inr lines, d))"
  by pat_completeness auto
termination
  by (relation "measure (\<lambda>(timeout_ms, start, lines, buffer, d).
                   nat (timeout_ms + int start - int (now d)))")
     (auto simp: advance_def)

definition read_serial_with_timeout :: "int \<Rightarrow> device \<Rightarrow> (string + string list) \<times> device" where
  "read_serial_with_timeout timeout_ms d = read_loop timeout_ms (now d) [] [] d"

definition wait_for_system_ready :: "int \<Rightarrow> device \<Rightarrow> (string + bool) \<times> device" where
  "wait_for_system_ready timeout_ms d =
     (case read_serial_with_timeout timeout_ms d of
        (Inl e, d') \<Rightarrow> (Inl e, d')
      | (Inr lines, d') \<Rightarrow> (Inr (system_ready lines), d'))"

definition test_indicators :: "string list" where
  "test_indicators = [''Test crash logged'', ''TEST:'', ''Manual crash test'']"

definition found_test :: "string list \<Rightarrow> bool" where
  \<comment> \<open>the flag \<open>found_test\<close> of \<open>trigger_soft_crash_test\<close> after its two loops\<close>
  "found_test lines =
     list_ex (\<lambda>l. list_ex (\<lambda>indicator. is_in indicator l) test_indicators) lines"

definition trigger_soft_crash_test :: "device \<Rightarrow> (string + bool) \<times> device" where
  "trigger_soft_crash_test d =
     (case read_serial_with_timeout 5000 d of
        (Inl e, d') \<Rightarrow> (Inl e, d')
      | (Inr lines, d') \<Rightarrow> (Inr (found_test lines), d'))"

section \<open>The test orchestrator\<close>

record test_config =
  name :: string
  command :: string
  description :: string
  expect_reboot :: bool
  timeout :: nat

definition crash_tests :: "(string \<times> test_config) list" where
  \<comment> \<open>the catalog \<open>self.crash_tests\<close>; \<open>timeout\<close> is in seconds, as in the source\<close>
  "crash_tests =
     [(''soft_test'',
         \<lparr>name = ''Soft Test Crash'', command = ''TEST_CRASH_SOFT'',
          description = ''Tests logging without actual crash'',
          expect_reboot = False, timeout = 10\<rparr>),
      (''null_pointer'',
         \<lparr>name = ''Null Pointer Dereference'', command = ''TEST_CRASH_NULL'',
          description = ''Triggers null pointer access violation'',
          expect_reboot = True, timeout = 15\<rparr>),
      (''stack_overflow'',
         \<lparr>name = ''Stack Overflow'', command = ''TEST_CRASH_STACK'',
          description = ''Triggers stack overflow through recursion'',
          expect_reboot = True, timeout = 15\<rparr>),
      (''heap_corruption'',
         \<lparr>name = ''Heap Corruption'', command = ''TEST_CRASH_HEAP'',
          description = ''Triggers heap corruption detection'',
          expect_reboot = True, timeout = 15\<rparr>),
      (''assert_fail'',
         \<lparr>name = ''Assertion Failure'', command = ''TEST_CRASH_ASSERT'',
          description = ''Triggers assertion failure'',
          expect_reboot = True, timeout = 15\<rparr>),
      (''watchdog'',
         \<lparr>name = ''Watchdog Timeout'', command = ''TEST_CRASH_WATCHDOG'',
          description = ''Triggers watchdog timeout'',
          expect_reboot = True, timeout = 30\<rparr>)]"

record test_result =
  test_name :: string
  success :: bool
  crash_detected :: bool
  reboot_detected :: bool
  crash_logs :: "crash_log list"
  duration :: nat
  error :: "string option"

definition new_result :: "string \<Rightarrow> test_result" where
  \<comment> \<open>the dictionary \<open>result\<close> as \<open>run_crash_test\<close> creates it\<close>
  "new_result n =
     \<lparr>test_name = n, success = False, crash_detected = False, reboot_detected = False,
      crash_logs = [], duration = 0, error = None\<rparr>"

definition fixed_clock :: "nat \<Rightarrow> nat \<Rightarrow> nat" where
  \<comment> \<open>a clock that reads \<open>t\<close> at every call\<close>
  "fixed_clock t k = t"

definition decide :: "test_config \<Rightarrow> test_result \<Rightarrow> bool" where
  \<comment> \<open>"Determine success based on expectations"\<close>
  "decide cfg r =
     (if expect_reboot cfg then reboot_detected r \<and> crash_detected r
      else crash_detected r \<and> \<not> reboot_detected r)"

definition analyze :: "test_config \<Rightarrow> nat \<Rightarrow> string list \<Rightarrow> test_result \<Rightarrow> test_result" where
  \<comment> \<open>"Analyze results": the assignments between the read and the recovery wait;
      \<open>t\<close> is the clock when the crash-log entries are stamped\<close>
  "analyze cfg t lines r =
     (let r1 = r\<lparr>reboot_detected := detect_reboot lines\<rparr>;
          r2 = r1\<lparr>crash_logs := parse_crash_logs (fixed_clock t) lines\<rparr>;
          r3 = r2\<lparr>crash_detected := (0 < length (crash_logs r2))\<rparr>
      in r3\<lparr>success := decide cfg r3\<rparr>)"

definition run_crash_test :: "string \<Rightarrow> device \<Rightarrow> test_result \<times> device" where
  \<comment> \<open>The unknown-test dictionary has the keys \<open>success\<close> and \<open>error\<close> only; the other
      fields of the record keep their initial values there. An exception inside the
      \<open>try\<close> is caught: its message goes to \<open>error\<close> and the function goes on to set
      \<open>duration\<close>. The two \<open>return\<close>s inside the \<open>try\<close> leave \<open>duration\<close> as it is.\<close>
  "run_crash_test n d =
     (case map_of crash_tests n of
        None \<Rightarrow> ((new_result n)\<lparr>error := Some (''Unknown test: '' @ n)\<rparr>, d)
      | Some cfg \<Rightarrow>
          let result = new_result n; t0 = now d in
          if n = ''soft_test'' then
            (case trigger_soft_crash_test d of
               (Inl e, d1) \<Rightarrow> (result\<lparr>error := Some e, duration := now d1 - t0\<rparr>, d1)
             | (Inr found, d1) \<Rightarrow> (result\<lparr>success := found, duration := now d1 - t0\<rparr>, d1))
          else
            (case send_command (command cfg) d of
               (False, d1) \<Rightarrow> (result\<lparr>error := Some ''Failed to send command''\<rparr>, d1)
             | (True, d1) \<Rightarrow>
                 (case read_serial_with_timeout (1000 * int (timeout cfg)) d1 of
                    (Inl e, d2) \<Rightarrow> (result\<lparr>error := Some e, duration := now d2 - t0\<rparr>, d2)
                  | (Inr lines, d2) \<Rightarrow>
                      let r = analyze cfg (now d2) lines result in
                      if reboot_detected r then
                        (case wait_for_system_ready 30000 d2 of
                           (Inl e, d3) \<Rightarrow> (r\<lparr>error := Some e, duration := now d3 - t0\<rparr>, d3)
                         | (Inr True, d3) \<Rightarrow> (r\<lparr>duration := now d3 - t0\<rparr>, d3)
                         | (Inr False, d3) \<Rightarrow>
                             (r\<lparr>success := False, duration := now d3 - t0\<rparr>, d3))
                      else (r\<lparr>duration := now d2 - t0\<rparr>, d2))))"

section \<open>The suite and its summary\<close>

record counts =
  total :: nat
  passed :: nat
  failed :: nat
  errors :: nat

record suite_results =
  tests :: "(string \<times> test_result) list"
  summary :: counts
  start_time :: nat
  end_time :: "nat option"

definition truthy :: "string option \<Rightarrow> bool" where
  \<comment> \<open>the condition \<open>if result.get('error')\<close>: neither \<open>None\<close> nor the empty string\<close>
  "truthy e = (case e of None \<Rightarrow> False | Some s \<Rightarrow> s \<noteq> [])"

definition tally :: "test_result \<Rightarrow> counts \<Rightarrow> counts" where
  \<comment> \<open>the counting of one executed test\<close>
  "tally r c =
     (let c1 = c\<lparr>total := total c + 1\<rparr> in
      if truthy (error r) then c1\<lparr>errors := errors c1 + 1\<rparr>
      else if success r then c1\<lparr>passed := passed c1 + 1\<rparr>
      else c1\<lparr>failed := failed c1 + 1\<rparr>)"

definition record_result :: "string \<Rightarrow> test_result \<Rightarrow> suite_results \<Rightarrow> suite_results" where
  \<comment> \<open>\<open>suite_results['tests'][test_name] = result\<close> and the counting; the dictionary is
      an association list in insertion order, and a key already there keeps its place\<close>
  "record_result n r sr =
     sr\<lparr>tests := AList.update n r (tests sr), summary := tally r (summary sr)\<rparr>"

fun run_tests :: "string \<Rightarrow> string list \<Rightarrow> suite_results \<Rightarrow> device \<Rightarrow> suite_results \<times> device" where
  \<comment> \<open>the loop \<open>for test_name in tests_to_run\<close>; \<open>final\<close> is \<open>tests_to_run[-1]\<close>\<close>
  "run_tests final [] sr d = (sr, d)"
| "run_tests final (n # rest) sr d =
     (if n \<in> set (map fst crash_tests) then
        (case run_crash_test n d of
           (r, d1) \<Rightarrow>
             run_tests final rest (record_result n r sr)
               (if n \<noteq> final then sleep 5000 d1 else d1))
      else run_tests final rest sr d)"

datatype suite_outcome =
    SuiteError string
  | SuiteRaised string
  | SuiteDone suite_results

definition empty_results :: "nat \<Rightarrow> suite_results" where
  \<comment> \<open>the dictionary \<open>suite_results\<close> as \<open>run_test_suite\<close> creates it at time \<open>t\<close>\<close>
  "empty_results t =
     \<lparr>tests = [], summary = \<lparr>total = 0, passed = 0, failed = 0, errors = 0\<rparr>,
      start_time = t, end_time = None\<rparr>"

definition run_test_suite :: "string list \<Rightarrow> device \<Rightarrow> suite_outcome \<times> device" where
  \<comment> \<open>\<open>SuiteError\<close> is one of the two dictionaries \<open>{'error': ...}\<close>; \<open>SuiteRaised\<close> is an
      exception of the first readiness wait, which no handler catches; \<open>SuiteDone\<close> is
      the finalized \<open>suite_results\<close>\<close>
  "run_test_suite tests_to_run d =
     (case connect d of
        (False, d0) \<Rightarrow> (SuiteError ''Connection failed'', d0)
      | (True, d0) \<Rightarrow>
          (case wait_for_system_ready 60000 d0 of
             (Inl e, d1) \<Rightarrow> (SuiteRaised e, d1)
           | (Inr False, d1) \<Rightarrow> (SuiteError ''System not ready'', disconnect d1)
           | (Inr True, d1) \<Rightarrow>
               (case run_tests (last tests_to_run) tests_to_run (empty_results (now d1)) d1 of
                  (sr, d2) \<Rightarrow> (SuiteDone (sr\<lparr>end_time := Some (now d2)\<rparr>), disconnect d2))))"

section \<open>Notions used to state the properties\<close>

definition indicators_present :: "string list \<Rightarrow> string list" where
  \<comment> \<open>the distinct readiness indicators that occur somewhere in a batch of lines\<close>
  "indicators_present lines =
     filter (\<lambda>indicator. list_ex (is_in indicator) lines) ready_indicators"

fun terminated :: "string \<Rightarrow> string \<Rightarrow> string list" where
  \<comment> \<open>the newline-terminated segments of a text, in order; \<open>acc\<close> holds, reversed, the
      characters since the last newline\<close>
  "terminated acc [] = []"
| "terminated acc (c # cs) =
     (if c = nl then rev acc # terminated [] cs else terminated (c # acc) cs)"

fun pending :: "string \<Rightarrow> string \<Rightarrow> string" where
  \<comment> \<open>the characters after the last newline of a text, reversed\<close>
  "pending acc [] = acc"
| "pending acc (c # cs) = (if c = nl then pending [] cs else pending (c # acc) cs)"

definition complete_lines :: "string \<Rightarrow> string list" where
  \<comment> \<open>the newline-terminated segments, trimmed, the empty ones dropped\<close>
  "complete_lines text = filter (\<lambda>l. l \<noteq> []) (map strip (terminated [] text))"

fun chunk :: "poll \<times> nat \<Rightarrow> string" where
  \<comment> \<open>the text one round of polling adds to the buffer\<close>
  "chunk (Avail s, extra) = s"
| "chunk (p, extra) = []"

definition received :: "device \<Rightarrow> device \<Rightarrow> string" where
  \<comment> \<open>the text read between two states of the device: that of the script entries
      used up in between\<close>
  "received d d' =
     concat (map chunk (take (length (script d) - length (script d')) (script d)))"



definition known :: "string \<Rightarrow> bool" where
  \<comment> \<open>\<open>test_name in self.crash_tests\<close>\<close>
  "known n = (n \<in> set (map fst crash_tests))"

definition suite_total :: "suite_outcome \<Rightarrow> nat option" where
  "suite_total out = (case out of SuiteDone sr \<Rightarrow> Some (total (summary sr)) | _ \<Rightarrow> None)"

definition suite_size :: "suite_outcome \<Rightarrow> nat option" where
  \<comment> \<open>the number of entries of \<open>suite_results['tests']\<close>\<close>
  "suite_size out = (case out of SuiteDone sr \<Rightarrow> Some (length (tests sr)) | _ \<Rightarrow> None)"

definition device_with :: "(poll \<times> nat) list \<Rightarrow> device" where
  \<comment> \<open>a device whose port opens and whose writes succeed, with the given script\<close>
  "device_with s =
     \<lparr>now = 0, script = s, write_fails = [], sent = [], port_ok = True, is_open = False\<rparr>"

declare read_loop.simps [simp del] drain.simps [simp del]

section \<open>The readiness classifier\<close>

lemma length_found_indicators:
  "length (found_indicators ls) =
     length (filter (is_in ''System Monitor - Fully Initialized'') ls)
   + length (filter (is_in ''Crash handler initialized'') ls)
   + length (filter (is_in ''Crash log manager initialized'') ls)"
  by (induction ls) (simp_all add: found_indicators_def ready_indicators_def)

lemma list_ex_filter_length: "list_ex P xs = (0 < length (filter P xs))"
  by (induction xs) simp_all

text \<open>
  Claim C1, as amended. \<open>wait_for_system_ready\<close> appends an indicator once for every line
  that contains it and compares the length of that list with 2. So the lines it has read
  are declared ready exactly when two distinct indicators occur among them, or one
  indicator occurs in at least two lines. Two distinct indicators, in any order and
  anywhere in the batch, always give \<open>True\<close>; a batch with one indicator in one line
  only gives \<open>False\<close>.
\<close>

theorem system_ready_iff:
  "system_ready ls =
     (2 \<le> length (indicators_present ls)
      \<or> list_ex (\<lambda>indicator. 2 \<le> length (filter (is_in indicator) ls)) ready_indicators)"
proof -
  define a where "a = length (filter (is_in ''System Monitor - Fully Initialized'') ls)"
  define b where "b = length (filter (is_in ''Crash handler initialized'') ls)"
  define c where "c = length (filter (is_in ''Crash log manager initialized'') ls)"
  have found: "length (found_indicators ls) = a + b + c"
    by (simp add: length_found_indicators a_def b_def c_def)
  have present: "length (indicators_present ls) =
      (if 0 < a then 1 else 0) + (if 0 < b then 1 else 0) + (if 0 < c then 1 else 0)"
    by (simp add: indicators_present_def ready_indicators_def list_ex_filter_length
        a_def b_def c_def)
  have twice: "list_ex (\<lambda>indicator. 2 \<le> length (filter (is_in indicator) ls)) ready_indicators
      = (2 \<le> a \<or> 2 \<le> b \<or> 2 \<le> c)"
    by (simp add: ready_indicators_def a_def b_def c_def)
  show ?thesis
    unfolding system_ready_def found present twice by (simp split: if_splits)
qed

text \<open>
  Claim C1, as stated, fails: a batch whose only readiness indicator is
  \<open>Crash handler initialized\<close>, on two lines, is declared ready.
\<close>

theorem one_indicator_twice_counterexample:
  "indicators_present [''Crash handler initialized'', ''Crash handler initialized'']
     = [''Crash handler initialized'']
   \<and> system_ready [''Crash handler initialized'', ''Crash handler initialized'']"
  by (simp add: indicators_present_def system_ready_def found_indicators_def
      ready_indicators_def)

section \<open>The line reader waits for its time limit\<close>















section \<open>Complete lines and the partial line\<close>

lemma terminated_append:
  "terminated acc (a @ b) = terminated acc a @ terminated (pending acc a) b"
  by (induction a arbitrary: acc) simp_all

lemma pending_append: "pending acc (a @ b) = pending (pending acc a) b"
  by (induction a arbitrary: acc) simp_all

lemma terminated_no_nl: "nl \<notin> set a \<Longrightarrow> terminated acc a = []"
  by (induction a arbitrary: acc) auto

lemma pending_no_nl: "nl \<notin> set a \<Longrightarrow> pending acc a = rev a @ acc"
  by (induction a arbitrary: acc) auto

lemma pending_free: "nl \<notin> set acc \<Longrightarrow> nl \<notin> set (pending acc a)"
  by (induction a arbitrary: acc) auto

lemma split_at_nl:
  "nl \<in> set b \<Longrightarrow>
     b = takeWhile (\<lambda>c. c \<noteq> nl) b @ nl # tl (dropWhile (\<lambda>c. c \<noteq> nl) b)"
proof -
  assume "nl \<in> set b"
  then have ne: "dropWhile (\<lambda>c. c \<noteq> nl) b \<noteq> []" by simp
  then have "hd (dropWhile (\<lambda>c. c \<noteq> nl) b) = nl"
    using hd_dropWhile [of "\<lambda>c. c \<noteq> nl" b] by simp
  with ne have "dropWhile (\<lambda>c. c \<noteq> nl) b = nl # tl (dropWhile (\<lambda>c. c \<noteq> nl) b)"
    by (cases "dropWhile (\<lambda>c. c \<noteq> nl) b") simp_all
  then show ?thesis
    using takeWhile_dropWhile_id [of "\<lambda>c. c \<noteq> nl" b] by simp
qed

lemma terminated_first:
  "nl \<notin> set x \<Longrightarrow> terminated [] (x @ nl # y) = x # terminated [] y"
  by (simp add: terminated_append terminated_no_nl pending_no_nl)

lemma pending_first:
  "nl \<notin> set x \<Longrightarrow> pending [] (x @ nl # y) = pending [] y"
  by (simp add: pending_append pending_no_nl)

lemma drain_eq:
  "drain ls b = (ls @ complete_lines b, rev (pending [] b))"
proof (induction ls b rule: drain.induct)
  case (1 ls b)
  show ?case
  proof (cases "nl \<in> set b")
    case False
    then show ?thesis
      by (simp add: drain.simps [of ls b] complete_lines_def terminated_no_nl pending_no_nl)
  next
    case True
    let ?x = "takeWhile (\<lambda>c. c \<noteq> nl) b"
    let ?y = "tl (dropWhile (\<lambda>c. c \<noteq> nl) b)"
    have b: "b = ?x @ nl # ?y" using True by (rule split_at_nl)
    have x: "nl \<notin> set ?x" by (auto dest: set_takeWhileD)
    have t: "terminated [] b = ?x # terminated [] ?y"
      using terminated_first [OF x, of ?y] b by simp
    have p: "pending [] b = pending [] ?y"
      using pending_first [OF x, of ?y] b by simp
    show ?thesis
      using True "1.IH" [OF True]
      by (simp add: drain.simps [of ls b] complete_lines_def t p)
  qed
qed


lemma terminated_pending: "nl \<notin> set p \<Longrightarrow> terminated [] (rev p @ c) = terminated p c"
  by (simp add: terminated_append terminated_no_nl pending_no_nl)

lemma complete_lines_append:
  "complete_lines (a @ c) = complete_lines a @ complete_lines (rev (pending [] a) @ c)"
proof -
  have "terminated [] (rev (pending [] a) @ c) = terminated (pending [] a) c"
    by (rule terminated_pending) (simp add: pending_free)
  then show ?thesis
    unfolding complete_lines_def terminated_append [of "[]" a c] by simp
qed

lemma complete_lines_partial:
  "nl \<notin> set p \<Longrightarrow> complete_lines (a @ p) = complete_lines a"
  by (simp add: complete_lines_def terminated_append terminated_no_nl)

lemma chunks_Suc:
  "concat (map chunk (take (Suc k) (script d)))
     = chunk (next_poll d) @ concat (map chunk (take k (script (advance d))))"
  by (cases "script d") (simp_all add: next_poll_def advance_def)

lemma script_advance: "drop k (script (advance d)) = drop (Suc k) (script d)"
  by (simp add: advance_def drop_Suc)

lemma chunk_next:
  "fst (next_poll d) = Avail x \<Longrightarrow> chunk (next_poll d) = x"
  "fst (next_poll d) = Idle \<Longrightarrow> chunk (next_poll d) = []"
  "fst (next_poll d) = ReadFail \<Longrightarrow> chunk (next_poll d) = []"
  by (cases "next_poll d"; simp)+

lemma read_loop_lines:
  "read_loop t s ls b d = (Inr out, d') \<Longrightarrow> nl \<notin> set b \<Longrightarrow>
     \<exists>k. script d' = drop k (script d)
        \<and> out = ls @ complete_lines (b @ concat (map chunk (take k (script d))))"
proof (induction t s ls b d rule: read_loop.induct)
  case (1 t s ls b d)
  show ?case
  proof (cases "int (now d) - int s < t")
    case False
    with "1.prems" have "d' = d" "out = ls" by (simp_all add: read_loop.simps [of t s ls b d])
    moreover have "complete_lines b = []"
      using "1.prems"(2) by (simp add: complete_lines_def terminated_no_nl)
    ultimately have "script d' = drop 0 (script d)
        \<and> out = ls @ complete_lines (b @ concat (map chunk (take 0 (script d))))"
      by simp
    then show ?thesis by blast
  next
    case True
    show ?thesis
    proof (cases "fst (next_poll d)")
      case Idle
      with True "1.prems" have "read_loop t s ls b (advance d) = (Inr out, d')"
        by (simp add: read_loop.simps [of t s ls b d])
      from "1.IH"(1) [OF True Idle this "1.prems"(2)] obtain k where
        k: "script d' = drop k (script (advance d))"
           "out = ls @ complete_lines (b @ concat (map chunk (take k (script (advance d)))))"
        by blast
      have "script d' = drop (Suc k) (script d)
          \<and> out = ls @ complete_lines (b @ concat (map chunk (take (Suc k) (script d))))"
        using k by (simp add: script_advance chunks_Suc chunk_next Idle del: take_Suc)
      then show ?thesis by blast
    next
      case ReadFail
      with True "1.prems" have "read_loop t s ls b (advance d) = (Inr out, d')"
        by (simp add: read_loop.simps [of t s ls b d])
      from "1.IH"(3) [OF True ReadFail this "1.prems"(2)] obtain k where
        k: "script d' = drop k (script (advance d))"
           "out = ls @ complete_lines (b @ concat (map chunk (take k (script (advance d)))))"
        by blast
      have "script d' = drop (Suc k) (script d)
          \<and> out = ls @ complete_lines (b @ concat (map chunk (take (Suc k) (script d))))"
        using k by (simp add: script_advance chunks_Suc chunk_next ReadFail del: take_Suc)
      then show ?thesis by blast
    next
      case (WaitingFail e)
      with True "1.prems" show ?thesis by (simp add: read_loop.simps [of t s ls b d])
    next
      case (Avail x)
      let ?b = "rev (pending [] (b @ x))"
      have free: "nl \<notin> set ?b" by (simp add: pending_free)
      from Avail True "1.prems" have
        "read_loop t s (ls @ complete_lines (b @ x)) ?b (advance d) = (Inr out, d')"
        by (simp add: read_loop.simps [of t s ls b d] drain_eq)
      then have "read_loop t s (fst (drain ls (b @ x))) (snd (drain ls (b @ x))) (advance d)
          = (Inr out, d')"
        by (simp add: drain_eq)
      from "1.IH"(2) [OF True Avail this] free obtain k where
        k: "script d' = drop k (script (advance d))"
           "out = (ls @ complete_lines (b @ x))
                  @ complete_lines (?b @ concat (map chunk (take k (script (advance d)))))"
        by (auto simp: drain_eq)
      have "complete_lines (b @ x @ concat (map chunk (take k (script (advance d)))))
          = complete_lines (b @ x)
            @ complete_lines (?b @ concat (map chunk (take k (script (advance d)))))"
        using complete_lines_append [of "b @ x"] by simp
      with k have "script d' = drop (Suc k) (script d)
          \<and> out = ls @ complete_lines (b @ concat (map chunk (take (Suc k) (script d))))"
        by (simp add: script_advance chunks_Suc chunk_next Avail del: take_Suc)
      then show ?thesis by blast
    qed
  qed
qed

lemma read_serial_lines:
  assumes "read_serial_with_timeout t d = (Inr out, d')"
  shows "out = complete_lines (received d d')"
proof -
  from assms have "read_loop t (now d) [] [] d = (Inr out, d')"
    by (simp add: read_serial_with_timeout_def)
  from read_loop_lines [OF this] obtain k where
    k: "script d' = drop k (script d)"
       "out = complete_lines (concat (map chunk (take k (script d))))"
    by auto
  have "take (length (script d) - length (script d')) (script d) = take k (script d)"
    by (cases "k \<le> length (script d)") (simp_all add: k(1))
  with k(2) show ?thesis by (simp add: received_def)
qed

text \<open>
  Claim C10. What a call of \<open>read_serial_with_timeout\<close> returns are the
  newline-terminated segments of the text received during that call, trimmed, the empty
  ones dropped. Text after the last newline changes nothing in the result, and the next
  call returns the complete lines of the text received during the next call alone: the
  buffer is local to the call.
\<close>

theorem partial_line_discarded:
  "read_serial_with_timeout t d = (Inr out, d1) \<Longrightarrow>
   read_serial_with_timeout t' d1 = (Inr out', d2) \<Longrightarrow>
     out = complete_lines (received d d1) \<and> out' = complete_lines (received d1 d2)
     \<and> (nl \<notin> set rest \<longrightarrow> complete_lines (text @ rest) = complete_lines text)"
  by (simp add: read_serial_lines complete_lines_partial)

text \<open>
  An instance: the first call receives \<open>abc\<close>, a newline and \<open>de\<close>, the second call
  \<open>f\<close> and a newline. The first returns \<open>abc\<close>, the second \<open>f\<close> and not \<open>def\<close>.
\<close>

theorem partial_line_discarded_witness:
  "read_serial_with_timeout 5
       (device_with [(Avail ''abc\<newline>de'', 4), (Avail ''f\<newline>'', 4)])
     = (Inr [''abc''], (device_with [(Avail ''f\<newline>'', 4)])\<lparr>now := 5\<rparr>)
   \<and> read_serial_with_timeout 5 ((device_with [(Avail ''f\<newline>'', 4)])\<lparr>now := 5\<rparr>)
     = (Inr [''f''], (device_with [])\<lparr>now := 10\<rparr>)
   \<and> nl \<notin> set ''de''
   \<and> complete_lines
        (received (device_with [(Avail ''abc\<newline>de'', 4), (Avail ''f\<newline>'', 4)])
                  ((device_with [(Avail ''f\<newline>'', 4)])\<lparr>now := 5\<rparr>)) = [''abc'']
   \<and> complete_lines
        (received ((device_with [(Avail ''f\<newline>'', 4)])\<lparr>now := 5\<rparr>)
                  ((device_with [])\<lparr>now := 10\<rparr>)) = [''f'']
   \<and> complete_lines (''abc\<newline>'' @ ''de'') = complete_lines ''abc\<newline>''"
proof -
  have one: "read_serial_with_timeout 5
       (device_with [(Avail ''abc\<newline>de'', 4), (Avail ''f\<newline>'', 4)])
     = (Inr [''abc''], (device_with [(Avail ''f\<newline>'', 4)])\<lparr>now := 5\<rparr>)"
    by (simp add: read_serial_with_timeout_def device_with_def read_loop.simps next_poll_def
        advance_def drain.simps nl_def strip_def is_space_def)
  have two: "read_serial_with_timeout 5 ((device_with [(Avail ''f\<newline>'', 4)])\<lparr>now := 5\<rparr>)
     = (Inr [''f''], (device_with [])\<lparr>now := 10\<rparr>)"
    by (simp add: read_serial_with_timeout_def device_with_def read_loop.simps next_poll_def
        advance_def drain.simps nl_def strip_def is_space_def)
  have three: "nl \<notin> set ''de''" by (simp add: nl_def)
  from partial_line_discarded [OF one two, of "''de''" "''abc\<newline>''"] one two three
  show ?thesis by simp
qed

section \<open>The crash-log classifier and the clock\<close>

lemma untimed_parse:
  "map (\<lambda>e. (type e, line e, data e)) (parse_crash_logs c ls) = concat (map line_matches ls)"
proof -
  have "(\<lambda>e. (type e, line e, data e))
          \<circ> (\<lambda>(k, (pattern_name, l, groups)).
               \<lparr>type = pattern_name, line = l, data = groups, timestamp = c k\<rparr>) = snd"
    by (auto simp: fun_eq_iff)
  then show ?thesis by (simp add: parse_crash_logs_def)
qed

lemma timestamps_parse:
  "map timestamp (parse_crash_logs c ls) = map c [0..<length (concat (map line_matches ls))]"
proof -
  have "timestamp
          \<circ> (\<lambda>(k, (pattern_name, l, groups)).
               \<lparr>type = pattern_name, line = l, data = groups, timestamp = c k\<rparr>) = c \<circ> fst"
    by (auto simp: fun_eq_iff)
  then have "map timestamp (parse_crash_logs c ls)
      = map (c \<circ> fst) (enumerate 0 (concat (map line_matches ls)))"
    by (simp add: parse_crash_logs_def)
  also have "\<dots> = map c (map fst (enumerate 0 (concat (map line_matches ls))))"
    by (simp only: map_map)
  also have "\<dots> = map c [0..<length (concat (map line_matches ls))]"
    by simp
  finally show ?thesis .
qed

lemma length_parse: "length (parse_crash_logs c ls) = length (concat (map line_matches ls))"
  by (simp add: parse_crash_logs_def)

text \<open>
  Claim C7, as amended. \<open>detect_reboot\<close> takes the lines and nothing else.
  \<open>parse_crash_logs\<close> also reads the clock, once for each entry it appends. Two runs on
  the same lines yield sequences that agree in \<open>type\<close>, \<open>line\<close> and \<open>data\<close> of every
  entry (and so in length and order); the \<open>timestamp\<close> of the entry number \<open>k\<close> is what
  the clock read at that moment of its own run.
\<close>

theorem parse_crash_logs_up_to_clock:
  "map (\<lambda>e. (type e, line e, data e)) (parse_crash_logs c1 ls)
     = map (\<lambda>e. (type e, line e, data e)) (parse_crash_logs c2 ls)
   \<and> map timestamp (parse_crash_logs c1 ls) = map c1 [0..<length (parse_crash_logs c1 ls)]"
  by (simp add: untimed_parse timestamps_parse length_parse)

text \<open>
  Claim C7, as stated, fails: two runs on the same line, with the clock at 0 and at 1,
  return entries that differ (in \<open>timestamp\<close>).
\<close>

theorem parse_crash_logs_clock_counterexample:
  "parse_crash_logs (fixed_clock 0) [''Storing crash log'']
     \<noteq> parse_crash_logs (fixed_clock 1) [''Storing crash log'']"
  by (simp add: parse_crash_logs_def line_matches_def patterns_def lower_def nl_def
      is_digit_def fixed_clock_def)

lemma of_char_lower:
  "of_char (lower c) = (if 65 \<le> (of_char c :: nat) \<and> (of_char c :: nat) \<le> 90
                        then of_char c + 32 else (of_char c :: nat))"
  by (simp add: lower_def Let_def)

lemma char_eq_code: "(c = d) = ((of_char c :: nat) = of_char d)"
  by simp

lemma is_digit_code: "is_digit c = (48 \<le> (of_char c :: nat) \<and> (of_char c :: nat) \<le> 57)"
  unfolding is_digit_def by (simp add: char_eq_code [of c]) arith

lemma is_digit_lower: "is_digit (lower c) = is_digit c"
  by (simp add: is_digit_code of_char_lower)

lemma nl_lower: "(lower c = nl) = (c = nl)"
  by (simp add: char_eq_code of_char_lower nl_def)

lemma lower_idem: "lower (lower c) = lower c"
  by (simp add: char_eq_code [of "lower (lower c)"] of_char_lower)


section \<open>The crash-log classifier ignores case\<close>

lemma ci_starts_with_fold:
  "map lower s = map lower s' \<Longrightarrow> ci_starts_with p s = ci_starts_with p s'"
proof (induction p arbitrary: s s')
  case Nil
  then show ?case by simp
next
  case (Cons a p)
  show ?case
  proof (cases s)
    case Nil
    with Cons.prems show ?thesis by simp
  next
    case c: (Cons c cs)
    with Cons.prems obtain c' cs' where s': "s' = c' # cs'"
      and e: "lower c = lower c'" "map lower cs = map lower cs'"
      by (cases s') auto
    from Cons.IH [OF e(2)] e(1) c s' show ?thesis by simp
  qed
qed

lemma takeWhile_fold:
  assumes "\<And>c. P (lower c) = P c" and "map lower s = map lower s'"
  shows "(takeWhile P s = []) = (takeWhile P s' = [])"
proof (cases s)
  case Nil
  with assms(2) show ?thesis by simp
next
  case (Cons c cs)
  with assms(2) obtain c' cs' where s': "s' = c' # cs'" and c: "lower c = lower c'"
    by (cases s') auto
  from assms(1) [of c] assms(1) [of c'] c have "P c = P c'" by simp
  with Cons s' show ?thesis by simp
qed

lemma dropWhile_fold:
  assumes "\<And>c. P (lower c) = P c" and "map lower s = map lower s'"
  shows "map lower (dropWhile P s) = map lower (dropWhile P s')"
proof -
  have P: "P \<circ> lower = P" using assms(1) by (auto simp: fun_eq_iff)
  have "map lower (dropWhile P t) = dropWhile P (map lower t)" for t
    by (simp add: dropWhile_map P)
  with assms(2) show ?thesis by simp
qed

lemma match_here_fold:
  "map lower s = map lower s' \<Longrightarrow> (match_here ps s = None) = (match_here ps s' = None)"
proof (induction ps arbitrary: s s')
  case Nil
  then show ?case by simp
next
  case (Cons a ps)
  show ?case
  proof (cases a)
    case (Lit p)
    have "map lower (drop (length p) s) = map lower (drop (length p) s')"
      using Cons.prems by (simp add: drop_map [symmetric])
    from Cons.IH [OF this] ci_starts_with_fold [OF Cons.prems, of p] Lit
    show ?thesis by simp
  next
    case Digits
    have e: "(takeWhile is_digit s = []) = (takeWhile is_digit s' = [])"
      by (rule takeWhile_fold [where P = is_digit]) (simp_all add: is_digit_lower Cons.prems)
    have "map lower (dropWhile is_digit s) = map lower (dropWhile is_digit s')"
      by (rule dropWhile_fold [where P = is_digit]) (simp_all add: is_digit_lower Cons.prems)
    from Cons.IH [OF this] e Digits show ?thesis by (simp add: Let_def)
  next
    case Rest
    have n: "(lower c \<noteq> nl) = (c \<noteq> nl)" for c by (simp add: nl_lower)
    have e: "(takeWhile (\<lambda>c. c \<noteq> nl) s = []) = (takeWhile (\<lambda>c. c \<noteq> nl) s' = [])"
      by (rule takeWhile_fold [where P = "\<lambda>c. c \<noteq> nl"]) (simp_all add: n Cons.prems)
    have "map lower (dropWhile (\<lambda>c. c \<noteq> nl) s) = map lower (dropWhile (\<lambda>c. c \<noteq> nl) s')"
      by (rule dropWhile_fold [where P = "\<lambda>c. c \<noteq> nl"]) (simp_all add: n Cons.prems)
    from Cons.IH [OF this] e Rest show ?thesis by (simp add: Let_def)
  qed
qed

lemma first_alt_fold:
  "map lower s = map lower s' \<Longrightarrow> (first_alt p s = None) = (first_alt p s' = None)"
proof (induction p)
  case Nil
  then show ?case by simp
next
  case (Cons a p)
  with match_here_fold [OF Cons.prems, of a] show ?case
    by (auto split: option.splits)
qed

lemma re_search_fold:
  "map lower s = map lower s' \<Longrightarrow> (re_search p s = None) = (re_search p s' = None)"
proof (induction s arbitrary: s')
  case Nil
  then show ?case by simp
next
  case (Cons c cs)
  then obtain c' cs' where s': "s' = c' # cs'" and cs: "map lower cs = map lower cs'"
    by (cases s') auto
  from first_alt_fold [OF Cons.prems, of p] Cons.IH [OF cs] s' show ?case
    by (auto split: option.splits)
qed

lemma names_line_matches:
  "map fst (line_matches l) = map fst (filter (\<lambda>p. re_search (snd p) l \<noteq> None) patterns)"
  by (simp add: line_matches_def patterns_def split: option.splits)

lemma line_matches_fold:
  assumes "map lower l = map lower l'"
  shows "map fst (line_matches l) = map fst (line_matches l')"
proof -
  have "filter (\<lambda>p. re_search (snd p) l \<noteq> None) patterns
      = filter (\<lambda>p. re_search (snd p) l' \<noteq> None) patterns"
    using re_search_fold [OF assms] by simp
  then show ?thesis by (simp add: names_line_matches)
qed

lemma length_line_matches:
  "length (line_matches l) = length (filter (\<lambda>p. re_search (snd p) l \<noteq> None) patterns)"
  using names_line_matches [of l] by (metis length_map)

lemma length_parse_sum:
  "length (parse_crash_logs c ls)
     = sum_list (map (\<lambda>l. length (filter (\<lambda>p. re_search (snd p) l \<noteq> None) patterns)) ls)"
  by (simp add: length_parse length_concat comp_def length_line_matches)

lemma first_alt_Some:
  "first_alt p s = Some g \<Longrightarrow> \<exists>a\<in>set p. match_here a s = Some g"
  by (induction p) (auto split: option.splits)

lemma re_search_Some:
  "re_search p s = Some g \<Longrightarrow> \<exists>a\<in>set p. \<exists>t. match_here a t = Some g"
proof (induction s)
  case Nil
  then show ?case using first_alt_Some by fastforce
next
  case (Cons c cs)
  then show ?case using first_alt_Some by (fastforce split: option.splits)
qed

lemma groups_shape:
  assumes "(n, p) \<in> set patterns" and "re_search p l = Some g"
  shows "(g = []) = (n = ''stored'')"
proof -
  from re_search_Some [OF assms(2)] obtain a t where
    a: "a \<in> set p" "match_here a t = Some g" by blast
  with assms(1) show ?thesis
    by (auto simp: patterns_def Let_def split: if_splits)
qed

lemma line_matches_data:
  assumes "(n, l', g) \<in> set (line_matches l)"
  shows "(g = None) = (n = ''stored'') \<and> g \<noteq> Some []"
proof -
  from assms obtain p where p: "(n, p) \<in> set patterns"
    and g: "(n, l', g) \<in> set (case re_search p l of None \<Rightarrow> []
              | Some groups \<Rightarrow> [(n, l, if groups = [] then None else Some groups)])"
    by (auto simp: line_matches_def)
  from g obtain groups where r: "re_search p l = Some groups"
    and "g = (if groups = [] then None else Some groups)"
    by (cases "re_search p l") simp_all
  with groups_shape [OF p r] show ?thesis by auto
qed

lemma parse_data:
  assumes "e \<in> set (parse_crash_logs c ls)"
  shows "(data e = None) = (type e = ''stored'') \<and> (captured_groups e = []) = (type e = ''stored'')"
proof -
  from assms have "(type e, line e, data e) \<in> set (map (\<lambda>e. (type e, line e, data e)) (parse_crash_logs c ls))"
    by (simp add: image_iff) blast
  then obtain l where "(type e, line e, data e) \<in> set (line_matches l)"
    by (auto simp: untimed_parse)
  from line_matches_data [OF this] show ?thesis
    by (auto simp: captured_groups_def split: option.splits)
qed

text \<open>
  Claim C8. \<open>parse_crash_logs\<close> appends one entry for each line and each pattern found
  in that line, so a line in which \<open>k\<close> patterns are found yields \<open>k\<close> entries. The
  search ignores the case of letters: two lines that differ in case only yield entries of
  the same patterns. The line \<open>Test crash logged: overflow\<close> yields one entry, with the
  captured groups \<open>[overflow]\<close>. A line in which no pattern is found yields no entry.
  The entries of \<open>stored\<close>, the one pattern without a group, are exactly those with no
  captured group: their \<open>data\<close> is \<open>None\<close>.
\<close>

theorem crash_log_classifier:
  "length (parse_crash_logs c ls)
     = sum_list (map (\<lambda>l. length (filter (\<lambda>p. re_search (snd p) l \<noteq> None) patterns)) ls)
   \<and> (map lower l1 = map lower l2 \<longrightarrow> map fst (line_matches l1) = map fst (line_matches l2))
   \<and> map captured_groups (parse_crash_logs c [''Test crash logged: overflow'']) = [[''overflow'']]
   \<and> (list_all (\<lambda>p. re_search (snd p) l0 = None) patterns \<longrightarrow> parse_crash_logs c [l0] = [])
   \<and> list_all (\<lambda>e. (data e = None) = (type e = ''stored'')
                   \<and> (captured_groups e = []) = (type e = ''stored''))
        (parse_crash_logs c ls)"
proof -
  have overflow:
    "map captured_groups (parse_crash_logs c [''Test crash logged: overflow'']) = [[''overflow'']]"
    by (simp add: parse_crash_logs_def line_matches_def patterns_def lower_def nl_def
        is_digit_def captured_groups_def)
  have none: "parse_crash_logs c [l0] = []"
    if "list_all (\<lambda>p. re_search (snd p) l0 = None) patterns"
    using that by (simp add: parse_crash_logs_def line_matches_def patterns_def)
  have shape: "list_all (\<lambda>e. (data e = None) = (type e = ''stored'')
                   \<and> (captured_groups e = []) = (type e = ''stored''))
        (parse_crash_logs c ls)"
    unfolding list_all_iff using parse_data by blast
  show ?thesis
    using length_parse_sum [of c ls] line_matches_fold [of l1 l2] overflow none shape
    by (intro conjI impI) assumption+
qed

text \<open>
  An instance: \<open>STORING CRASH LOG\<close> and \<open>storing crash log\<close> differ in case only;
  no pattern is found in \<open>hello\<close>.
\<close>

theorem crash_log_classifier_witness:
  "map lower ''STORING CRASH LOG'' = map lower ''storing crash log''
   \<and> map fst (line_matches ''STORING CRASH LOG'') = map fst (line_matches ''storing crash log'')
   \<and> list_all (\<lambda>p. re_search (snd p) ''hello'' = None) patterns
   \<and> parse_crash_logs (fixed_clock 0) [''hello''] = []
   \<and> list_all (\<lambda>e. (data e = None) = (type e = ''stored'')
                   \<and> (captured_groups e = []) = (type e = ''stored''))
        (parse_crash_logs (fixed_clock 0) [''Crash log manager initialized - 3 logs stored''])"
proof -
  have fold: "map lower ''STORING CRASH LOG'' = map lower ''storing crash log''"
    by (simp add: lower_def char_eq_code)
  have none: "list_all (\<lambda>p. re_search (snd p) ''hello'' = None) patterns"
    by (simp add: patterns_def lower_def nl_def is_digit_def)
  from crash_log_classifier [of "fixed_clock 0"
      "[''Crash log manager initialized - 3 logs stored'']"
      "''STORING CRASH LOG''" "''storing crash log''" "''hello''"] fold none
  show ?thesis by simp
qed

section \<open>The soft test\<close>

lemma read_loop_sent: "sent (snd (read_loop t s ls b d)) = sent d"
proof (induction t s ls b d rule: read_loop.induct)
  case (1 t s ls b d)
  show ?case
  proof (cases "int (now d) - int s < t")
    case False
    then show ?thesis by (simp add: read_loop.simps)
  next
    case True
    with 1 show ?thesis
      by (cases "fst (next_poll d)")
         (simp_all add: read_loop.simps [of t s ls b d] advance_def)
  qed
qed

lemma read_serial_sent: "sent (snd (read_serial_with_timeout t d)) = sent d"
  by (simp add: read_serial_with_timeout_def read_loop_sent)

lemma soft_test_known: "map_of crash_tests ''soft_test'' \<noteq> None"
  by (simp add: crash_tests_def)

text \<open>
  Claim C9. For \<open>soft_test\<close>, \<open>run_crash_test\<close> leaves the device as one read of five
  seconds leaves it: nothing is written to the transport and no second window is
  observed. The reboot classifier and the crash-log classifier are not applied:
  \<open>reboot_detected\<close> stays \<open>False\<close> and \<open>crash_logs\<close> empty. \<open>success\<close> is \<open>True\<close>
  exactly when the read returns lines one of which contains one of the three test
  markers.
\<close>

theorem soft_test_observes_only:
  "snd (run_crash_test ''soft_test'' d) = snd (read_serial_with_timeout 5000 d)
   \<and> sent (snd (run_crash_test ''soft_test'' d)) = sent d
   \<and> \<not> reboot_detected (fst (run_crash_test ''soft_test'' d))
   \<and> crash_logs (fst (run_crash_test ''soft_test'' d)) = []
   \<and> success (fst (run_crash_test ''soft_test'' d))
       = (\<exists>ls. fst (read_serial_with_timeout 5000 d) = Inr ls
            \<and> (\<exists>l\<in>set ls. \<exists>marker\<in>set [''Test crash logged'', ''TEST:'', ''Manual crash test''].
                  is_in marker l))"
proof -
  obtain cfg where cfg: "map_of crash_tests ''soft_test'' = Some cfg"
    using soft_test_known by blast
  obtain res d1 where rd: "read_serial_with_timeout 5000 d = (res, d1)"
    by (cases "read_serial_with_timeout 5000 d")
  have s: "sent d1 = sent d" using read_serial_sent [of 5000 d] rd by simp
  have f: "found_test ls
      = (\<exists>l\<in>set ls. \<exists>marker\<in>set [''Test crash logged'', ''TEST:'', ''Manual crash test''].
           is_in marker l)" for ls
    unfolding found_test_def test_indicators_def list_ex_iff ..
  show ?thesis
  proof (cases res)
    case (Inl e)
    then show ?thesis
      by (simp add: run_crash_test_def cfg trigger_soft_crash_test_def rd new_result_def s)
  next
    case (Inr ls)
    then show ?thesis
      unfolding run_crash_test_def cfg trigger_soft_crash_test_def rd
      by (simp add: new_result_def s f)
  qed
qed

text \<open>
  Three instances. Scenario C with a boot banner added: the window holds a line with
  \<open>rst:0x\<close>, which the reboot classifier would report, and the line
  \<open>Test crash logged: manual\<close>; the soft test succeeds and reports no reboot. A
  window with a line that holds no marker, and an empty window: the soft test fails.
\<close>

theorem soft_test_observes_only_witness:
  "detect_reboot [''rst:0x1 (POWERON)'', ''Test crash logged: manual'']
   \<and> fst (read_serial_with_timeout 5000
        (device_with [(Avail ''rst:0x1 (POWERON)\<newline>Test crash logged: manual\<newline>'', 5000)]))
       = Inr [''rst:0x1 (POWERON)'', ''Test crash logged: manual'']
   \<and> success (fst (run_crash_test ''soft_test''
        (device_with [(Avail ''rst:0x1 (POWERON)\<newline>Test crash logged: manual\<newline>'', 5000)])))
   \<and> \<not> reboot_detected (fst (run_crash_test ''soft_test''
        (device_with [(Avail ''rst:0x1 (POWERON)\<newline>Test crash logged: manual\<newline>'', 5000)])))
   \<and> fst (read_serial_with_timeout 5000 (device_with [(Avail ''boot ok\<newline>'', 5000)]))
       = Inr [''boot ok'']
   \<and> \<not> success (fst (run_crash_test ''soft_test'' (device_with [(Avail ''boot ok\<newline>'', 5000)])))
   \<and> fst (read_serial_with_timeout 5000 (device_with [(Idle, 5000)])) = Inr []
   \<and> \<not> success (fst (run_crash_test ''soft_test'' (device_with [(Idle, 5000)])))"
proof -
  have rd: "read_serial_with_timeout 5000
        (device_with [(Avail ''rst:0x1 (POWERON)\<newline>Test crash logged: manual\<newline>'', 5000)])
       = (Inr [''rst:0x1 (POWERON)'', ''Test crash logged: manual''],
          (device_with [])\<lparr>now := 5001\<rparr>)"
    by (simp add: read_serial_with_timeout_def device_with_def read_loop.simps next_poll_def
        advance_def drain.simps nl_def strip_def is_space_def)
  have dr: "detect_reboot [''rst:0x1 (POWERON)'', ''Test crash logged: manual'']"
    by (simp add: detect_reboot_def reboot_indicators_def)
  have rn: "read_serial_with_timeout 5000 (device_with [(Avail ''boot ok\<newline>'', 5000)])
       = (Inr [''boot ok''], (device_with [])\<lparr>now := 5001\<rparr>)"
    by (simp add: read_serial_with_timeout_def device_with_def read_loop.simps next_poll_def
        advance_def drain.simps nl_def strip_def is_space_def)
  have re: "read_serial_with_timeout 5000 (device_with [(Idle, 5000)])
       = (Inr [], (device_with [])\<lparr>now := 5001\<rparr>)"
    by (simp add: read_serial_with_timeout_def device_with_def read_loop.simps next_poll_def
        advance_def)
  from soft_test_observes_only
         [of "device_with [(Avail ''rst:0x1 (POWERON)\<newline>Test crash logged: manual\<newline>'', 5000)]"]
       soft_test_observes_only [of "device_with [(Avail ''boot ok\<newline>'', 5000)]"]
       soft_test_observes_only [of "device_with [(Idle, 5000)]"]
       rd dr rn re
  show ?thesis by simp
qed

section \<open>The summary of a suite\<close>

lemma tally_step:
  "total (tally r c) = total c + 1
   \<and> (passed (tally r c) = passed c + 1 \<and> failed (tally r c) = failed c \<and> errors (tally r c) = errors c
      \<or> passed (tally r c) = passed c \<and> failed (tally r c) = failed c + 1 \<and> errors (tally r c) = errors c
      \<or> passed (tally r c) = passed c \<and> failed (tally r c) = failed c \<and> errors (tally r c) = errors c + 1)"
  by (simp add: tally_def Let_def)

lemma tally_sum:
  "passed c + failed c + errors c = total c \<Longrightarrow>
   passed (tally r c) + failed (tally r c) + errors (tally r c) = total (tally r c)"
  by (simp add: tally_def Let_def)

lemma run_tests_sum:
  "passed (summary sr) + failed (summary sr) + errors (summary sr) = total (summary sr) \<Longrightarrow>
   passed (summary (fst (run_tests final ns sr d))) + failed (summary (fst (run_tests final ns sr d)))
     + errors (summary (fst (run_tests final ns sr d)))
   = total (summary (fst (run_tests final ns sr d)))"
proof (induction ns arbitrary: sr d)
  case Nil
  then show ?case by simp
next
  case (Cons n ns)
  show ?case
  proof (cases "n \<in> set (map fst crash_tests)")
    case False
    with Cons show ?thesis by simp
  next
    case True
    obtain r d1 where rc: "run_crash_test n d = (r, d1)" by (cases "run_crash_test n d")
    have "passed (summary (record_result n r sr)) + failed (summary (record_result n r sr))
          + errors (summary (record_result n r sr)) = total (summary (record_result n r sr))"
      using tally_sum [OF Cons.prems] by (simp add: record_result_def)
    from Cons.IH [OF this] True rc show ?thesis by simp
  qed
qed

lemma suite_done:
  assumes "fst (run_test_suite ts d) = SuiteDone sr"
  shows "\<exists>d1. sr = (fst (run_tests (last ts) ts (empty_results (now d1)) d1))
                 \<lparr>end_time := Some (now (snd (run_tests (last ts) ts (empty_results (now d1)) d1)))\<rparr>"
proof -
  obtain ok d0 where c: "connect d = (ok, d0)" by (cases "connect d")
  obtain w d1 where w: "wait_for_system_ready 60000 d0 = (w, d1)"
    by (cases "wait_for_system_ready 60000 d0")
  obtain sr1 d2 where rt: "run_tests (last ts) ts (empty_results (now d1)) d1 = (sr1, d2)"
    by (cases "run_tests (last ts) ts (empty_results (now d1)) d1")
  from assms c w rt have "sr = sr1\<lparr>end_time := Some (now d2)\<rparr>"
    by (auto simp: run_test_suite_def split: bool.splits sum.splits)
  with rt show ?thesis by (intro exI [of _ d1]) simp
qed

text \<open>
  Claim C5. In every suite result that \<open>run_test_suite\<close> finalizes, \<open>passed\<close>,
  \<open>failed\<close> and \<open>errors\<close> add up to \<open>total\<close>. The counting of one executed test adds
  one to \<open>total\<close> and one to exactly one of the three counters.
\<close>

theorem summary_counts_add_up:
  "fst (run_test_suite ts d) = SuiteDone sr \<Longrightarrow>
     passed (summary sr) + failed (summary sr) + errors (summary sr) = total (summary sr)
     \<and> total (tally r c) = total c + 1
     \<and> (passed (tally r c) = passed c + 1 \<and> failed (tally r c) = failed c \<and> errors (tally r c) = errors c
        \<or> passed (tally r c) = passed c \<and> failed (tally r c) = failed c + 1 \<and> errors (tally r c) = errors c
        \<or> passed (tally r c) = passed c \<and> failed (tally r c) = failed c \<and> errors (tally r c) = errors c + 1)"
proof -
  assume "fst (run_test_suite ts d) = SuiteDone sr"
  from suite_done [OF this] obtain d1 sr0 where
    sr0: "sr0 = empty_results (now d1)"
    and sr: "sr = (fst (run_tests (last ts) ts sr0 d1))
                    \<lparr>end_time := Some (now (snd (run_tests (last ts) ts sr0 d1)))\<rparr>"
    by blast
  have "passed (summary sr0) + failed (summary sr0) + errors (summary sr0) = total (summary sr0)"
    by (simp add: sr0 empty_results_def)
  from run_tests_sum [OF this, of "last ts" ts d1] sr tally_step [of r c]
  show ?thesis by simp
qed

section \<open>Executed tests and stored outcomes\<close>

lemma known_iff: "known n = (n \<in> set (map fst crash_tests))"
  by (simp add: known_def)

lemma run_tests_total:
  "total (summary (fst (run_tests final ns sr d))) = total (summary sr) + length (filter known ns)"
proof (induction ns arbitrary: sr d)
  case Nil
  then show ?case by simp
next
  case (Cons n ns)
  show ?case
  proof (cases "n \<in> set (map fst crash_tests)")
    case False
    with Cons show ?thesis by (simp add: known_iff)
  next
    case True
    obtain r d1 where rc: "run_crash_test n d = (r, d1)" by (cases "run_crash_test n d")
    have "total (summary (record_result n r sr)) = total (summary sr) + 1"
      by (simp add: record_result_def tally_def Let_def)
    with Cons.IH [of "record_result n r sr"] True rc show ?thesis by (simp add: known_iff)
  qed
qed

lemma run_tests_keys:
  "distinct (map fst (tests sr)) \<Longrightarrow>
   distinct (map fst (tests (fst (run_tests final ns sr d))))
   \<and> set (map fst (tests (fst (run_tests final ns sr d))))
       = set (map fst (tests sr)) \<union> set (filter known ns)"
proof (induction ns arbitrary: sr d)
  case Nil
  then show ?case by simp
next
  case (Cons n ns)
  show ?case
  proof (cases "n \<in> set (map fst crash_tests)")
    case False
    with Cons show ?thesis by (simp add: known_iff)
  next
    case True
    obtain r d1 where rc: "run_crash_test n d = (r, d1)" by (cases "run_crash_test n d")
    have d: "distinct (map fst (tests (record_result n r sr)))"
      using Cons.prems by (simp add: record_result_def distinct_update)
    have k: "set (map fst (tests (record_result n r sr))) = insert n (set (map fst (tests sr)))"
      using dom_update [of n r "tests sr"] by (simp add: record_result_def)
    from Cons.IH [OF d] True rc k show ?thesis by (auto simp: known_iff)
  qed
qed

text \<open>
  Claim C4, as amended. In a finalized suite result \<open>total\<close> is the number of known
  identifiers requested, repetitions counted; the mapping of outcomes has one entry for
  each distinct known identifier requested. So \<open>total\<close> equals the number of entries
  exactly when no known identifier is requested twice.
\<close>

theorem suite_total_and_size:
  "fst (run_test_suite ts d) = SuiteDone sr \<Longrightarrow>
     total (summary sr) = length (filter known ts)
     \<and> length (tests sr) = length (remdups (filter known ts))
     \<and> (total (summary sr) = length (tests sr)) = distinct (filter known ts)"
proof -
  assume "fst (run_test_suite ts d) = SuiteDone sr"
  from suite_done [OF this] obtain d1 sr0 where
    sr0: "sr0 = empty_results (now d1)"
    and sr: "sr = (fst (run_tests (last ts) ts sr0 d1))
                    \<lparr>end_time := Some (now (snd (run_tests (last ts) ts sr0 d1)))\<rparr>"
    by blast
  have t: "total (summary sr) = length (filter known ts)"
    using run_tests_total [of "last ts" ts sr0 d1] by (simp add: sr sr0 empty_results_def)
  have "distinct (map fst (tests sr0))" by (simp add: sr0 empty_results_def)
  from run_tests_keys [OF this, of "last ts" ts d1]
  have k: "distinct (map fst (tests sr))" "set (map fst (tests sr)) = set (filter known ts)"
    by (simp_all add: sr sr0 empty_results_def)
  have "length (tests sr) = card (set (map fst (tests sr)))"
    using distinct_card [OF k(1)] by simp
  also have "\<dots> = length (remdups (filter known ts))"
    by (simp only: k(2) length_remdups_card_conv)
  finally have l: "length (tests sr) = length (remdups (filter known ts))" .
  have "(length (filter known ts) = length (remdups (filter known ts))) = distinct (filter known ts)"
    by (metis length_remdups_eq remdups_id_iff_distinct)
  with t l show ?thesis by simp
qed


section \<open>Runs on concrete devices\<close>

lemmas run_defs =
  run_test_suite_def connect_def disconnect_def sleep_def send_command_def device_with_def
  wait_for_system_ready_def read_serial_with_timeout_def read_loop.simps next_poll_def
  advance_def drain.simps nl_def strip_def is_space_def system_ready_def found_indicators_def
  ready_indicators_def run_crash_test_def crash_tests_def trigger_soft_crash_test_def
  found_test_def test_indicators_def new_result_def record_result_def tally_def truthy_def
  empty_results_def analyze_def decide_def detect_reboot_def reboot_indicators_def
  parse_crash_logs_def line_matches_def patterns_def lower_def is_digit_def fixed_clock_def
  known_def suite_total_def suite_size_def

text \<open>
  An instance: the device reports two readiness indicators in the start-up window and a
  test marker in the window of the soft test; the suite of that one test is finalized.
\<close>

theorem summary_counts_add_up_witness:
  "\<exists>sr. fst (run_test_suite [''soft_test'']
          (device_with
            [(Avail ''System Monitor - Fully Initialized\<newline>Crash handler initialized\<newline>'', 60000),
             (Avail ''Test crash logged: manual\<newline>'', 5000)])) = SuiteDone sr
      \<and> passed (summary sr) + failed (summary sr) + errors (summary sr) = total (summary sr)
      \<and> total (summary sr) = 1"
proof -
  have "\<exists>sr. fst (run_test_suite [''soft_test'']
          (device_with
            [(Avail ''System Monitor - Fully Initialized\<newline>Crash handler initialized\<newline>'', 60000),
             (Avail ''Test crash logged: manual\<newline>'', 5000)])) = SuiteDone sr
          \<and> total (summary sr) = 1"
    by (simp add: run_defs)
  then obtain sr where sr: "fst (run_test_suite [''soft_test'']
          (device_with
            [(Avail ''System Monitor - Fully Initialized\<newline>Crash handler initialized\<newline>'', 60000),
             (Avail ''Test crash logged: manual\<newline>'', 5000)])) = SuiteDone sr"
    and t: "total (summary sr) = 1"
    by blast
  from summary_counts_add_up [OF sr] sr t show ?thesis by blast
qed

text \<open>
  Claim C4, as stated, fails: when \<open>soft_test\<close> is requested twice, both runs are
  counted and the second outcome replaces the first under the same key, so \<open>total\<close> is 2
  and the mapping has 1 entry.
\<close>

theorem repeated_test_counterexample:
  "suite_total (fst (run_test_suite [''soft_test'', ''soft_test'']
      (device_with
        [(Avail ''System Monitor - Fully Initialized\<newline>Crash handler initialized\<newline>'', 60000),
         (Idle, 5000), (Idle, 5000)]))) = Some 2
   \<and> suite_size (fst (run_test_suite [''soft_test'', ''soft_test'']
      (device_with
        [(Avail ''System Monitor - Fully Initialized\<newline>Crash handler initialized\<newline>'', 60000),
         (Idle, 5000), (Idle, 5000)]))) = Some 1"
  by (simp add: run_defs)


text \<open>
  An instance: the soft test and an unknown identifier are requested; one test is
  executed and one entry is stored.
\<close>

theorem suite_total_and_size_witness:
  "\<exists>sr. fst (run_test_suite [''soft_test'', ''no_such_test'']
          (device_with
            [(Avail ''System Monitor - Fully Initialized\<newline>Crash handler initialized\<newline>'', 60000),
             (Avail ''Test crash logged: manual\<newline>'', 5000)])) = SuiteDone sr
      \<and> total (summary sr) = length (filter known [''soft_test'', ''no_such_test''])
      \<and> length (tests sr) = length (remdups (filter known [''soft_test'', ''no_such_test'']))
      \<and> total (summary sr) = length (tests sr)
      \<and> distinct (filter known [''soft_test'', ''no_such_test''])"
proof -
  have "\<exists>sr. fst (run_test_suite [''soft_test'', ''no_such_test'']
          (device_with
            [(Avail ''System Monitor - Fully Initialized\<newline>Crash handler initialized\<newline>'', 60000),
             (Avail ''Test crash logged: manual\<newline>'', 5000)])) = SuiteDone sr"
    by (simp add: run_defs)
  then obtain sr where sr: "fst (run_test_suite [''soft_test'', ''no_such_test'']
          (device_with
            [(Avail ''System Monitor - Fully Initialized\<newline>Crash handler initialized\<newline>'', 60000),
             (Avail ''Test crash logged: manual\<newline>'', 5000)])) = SuiteDone sr"
    by blast
  have d: "distinct (filter known [''soft_test'', ''no_such_test''])"
    by (simp add: known_def crash_tests_def)
  from suite_total_and_size [OF sr] sr d show ?thesis by blast
qed

text \<open>
  The policy of a test other than the soft test: \<open>success\<close> needs what \<open>expect_reboot\<close>
  asks for; a readiness wait that returns \<open>False\<close> forces \<open>success\<close> to \<open>False\<close>; a
  readiness wait that raises leaves the verdict of the policy in place.
\<close>

lemma run_crash_test_policy:
  assumes "map_of crash_tests n = Some cfg" and "n \<noteq> ''soft_test''"
    and "success (fst (run_crash_test n d))"
  shows "if expect_reboot cfg
         then reboot_detected (fst (run_crash_test n d)) \<and> crash_detected (fst (run_crash_test n d))
         else crash_detected (fst (run_crash_test n d)) \<and> \<not> reboot_detected (fst (run_crash_test n d))"
  using assms
  by (auto simp: run_crash_test_def Let_def new_result_def analyze_def decide_def
      split: prod.splits sum.splits bool.splits if_splits)

lemma recovery_not_ready:
  assumes "map_of crash_tests n = Some cfg" and "n \<noteq> ''soft_test''"
    and "send_command (command cfg) d = (True, d1)"
    and "read_serial_with_timeout (1000 * int (timeout cfg)) d1 = (Inr ls, d2)"
    and "detect_reboot ls"
    and "wait_for_system_ready 30000 d2 = (Inr False, d3)"
  shows "\<not> success (fst (run_crash_test n d))"
  using assms by (simp add: run_crash_test_def Let_def analyze_def)

lemma recovery_raises:
  assumes "map_of crash_tests n = Some cfg" and "n \<noteq> ''soft_test''"
    and "send_command (command cfg) d = (True, d1)"
    and "read_serial_with_timeout (1000 * int (timeout cfg)) d1 = (Inr ls, d2)"
    and "detect_reboot ls"
    and "wait_for_system_ready 30000 d2 = (Inl e, d3)"
  shows "error (fst (run_crash_test n d)) = Some e
         \<and> success (fst (run_crash_test n d))
             = (expect_reboot cfg \<and> parse_crash_logs (fixed_clock (now d2)) ls \<noteq> [])"
  using assms by (simp add: run_crash_test_def Let_def analyze_def decide_def new_result_def)

lemma truthy_error_not_passed:
  "truthy (error r) \<Longrightarrow> passed (tally r c) = passed c \<and> errors (tally r c) = errors c + 1"
  by (simp add: tally_def Let_def)

text \<open>
  Claim C3 says that an outcome with an error never has \<open>success\<close>. The code breaks
  it: the test \<open>null_pointer\<close> observes a boot banner and a crash-log line, so \<open>success\<close>
  is set; then, during the recovery wait, reading \<open>in_waiting\<close> raises. The handler
  stores the message in \<open>error\<close> and leaves \<open>success\<close> as it is. (Such an outcome
  is still counted under \<open>errors\<close>, see \<open>truthy_error_not_passed\<close>.)
\<close>

theorem error_with_success:
  "error (fst (run_crash_test ''null_pointer''
      (device_with [(Avail ''rst:0x1 (POWERON)\<newline>Storing crash log\<newline>'', 15000),
                    (WaitingFail ''[Errno 5] Input/output error'', 0)])))
     = Some ''[Errno 5] Input/output error''
   \<and> success (fst (run_crash_test ''null_pointer''
      (device_with [(Avail ''rst:0x1 (POWERON)\<newline>Storing crash log\<newline>'', 15000),
                    (WaitingFail ''[Errno 5] Input/output error'', 0)])))"
  by (simp add: run_defs)

text \<open>
  Claim C2 says that \<open>success\<close> is forced to \<open>False\<close> whenever a reboot was detected and
  readiness was not confirmed again. The code breaks it on the same path as for C3: the
  test \<open>watchdog\<close> detects the reboot and a crash-log entry, the readiness wait that
  follows ends by an exception, and \<open>success\<close> stays \<open>True\<close>. On every other path the
  policy holds, see \<open>run_crash_test_policy\<close> and \<open>recovery_not_ready\<close>.
\<close>

theorem reboot_without_recovery_succeeds:
  "reboot_detected (fst (run_crash_test ''watchdog''
      (device_with [(Avail ''ESP-ROM:esp32s3-20210327\<newline>Storing crash log\<newline>'', 30000),
                    (WaitingFail ''[Errno 6] Device not configured'', 0)])))
   \<and> fst (wait_for_system_ready 30000
        (snd (read_serial_with_timeout 30000
          (snd (send_command ''TEST_CRASH_WATCHDOG''
            (device_with [(Avail ''ESP-ROM:esp32s3-20210327\<newline>Storing crash log\<newline>'', 30000),
                          (WaitingFail ''[Errno 6] Device not configured'', 0)]))))))
     = Inl ''[Errno 6] Device not configured''
   \<and> success (fst (run_crash_test ''watchdog''
      (device_with [(Avail ''ESP-ROM:esp32s3-20210327\<newline>Storing crash log\<newline>'', 30000),
                    (WaitingFail ''[Errno 6] Device not configured'', 0)])))"
  by (simp add: run_defs)

end
